theory Spec2Isabelle
  imports Main "HOL-Library.Word"
begin

unbundle bit_operations_syntax

section \<open>Data model of vphys\_parser.cpp\<close>

text \<open>
  The program never computes with a \<^verbatim>\<open>float\<close>: it copies the four bytes of each value
  from the decoded blob into a \<^verbatim>\<open>Vector3\<close> and from there into the output file. A
  \<^verbatim>\<open>float\<close> is therefore modelled by its 32-bit pattern.
\<close>

type_synonym u8 = "8 word"
type_synonym float32 = "32 word"
type_synonym int32 = "32 word"

record Vector3 =
  x :: float32
  y :: float32
  z :: float32

record Triangle =
  p1 :: Vector3
  p2 :: Vector3
  p3 :: Vector3

record Edge =
  "next" :: u8
  twin :: u8
  origin :: u8
  face :: u8

text \<open>
  Reading a \<^verbatim>\<open>std::vector\<close> or a C string outside its bounds, writing outside a buffer
  and overflowing an \<^verbatim>\<open>int\<close> are undefined behaviour in the source. The model makes each
  of them a value, so that a run that stays inside the arrays is a run that returns
  \<open>Inr\<close>.
\<close>

datatype fault = OutOfRange | BufferOverflow | StringOverrun | IntegerOverflow

definition bind :: "fault + 'a \<Rightarrow> ('a \<Rightarrow> fault + 'b) \<Rightarrow> fault + 'b" where
  "bind m f = (case m of Inl e \<Rightarrow> Inl e | Inr v \<Rightarrow> f v)"

text \<open>\<^verbatim>\<open>vec[i]\<close>: \<open>operator[]\<close> of a vector checks nothing.\<close>

definition at :: "'a list \<Rightarrow> nat \<Rightarrow> fault + 'a" where
  "at vec i = (if i < length vec then Inr (vec ! i) else Inl OutOfRange)"

section \<open>Half-edge hull triangulation (main, lines 195--226)\<close>

text \<open>
  The body of the face walk after both range checks on \<^verbatim>\<open>edge\<close> and \<^verbatim>\<open>nextEdge\<close>: the
  three origin tests, joined by the short-circuit \<^verbatim>\<open>&&\<close>, and the \<^verbatim>\<open>push_back\<close>.
\<close>

definition push_fan_triangle ::
  "Vector3 list \<Rightarrow> Edge list \<Rightarrow> u8 \<Rightarrow> nat \<Rightarrow> nat \<Rightarrow> Triangle list \<Rightarrow> fault + Triangle list"
where
  "push_fan_triangle vertices edges_processed start_edge edge nextEdge triangles =
     bind (at edges_processed (unat start_edge)) (\<lambda>es.
       if unat (origin es) < length vertices then
         bind (at edges_processed edge) (\<lambda>ee.
           if unat (origin ee) < length vertices then
             bind (at edges_processed nextEdge) (\<lambda>en.
               if unat (origin en) < length vertices then
                 bind (at vertices (unat (origin es))) (\<lambda>a.
                 bind (at vertices (unat (origin ee))) (\<lambda>b.
                 bind (at vertices (unat (origin en))) (\<lambda>c.
                   Inr (triangles @ [\<lparr>p1 = a, p2 = b, p3 = c\<rparr>]))))
               else Inr triangles)
           else Inr triangles)
       else Inr triangles)"

text \<open>
  The \<^verbatim>\<open>while (edge != start_edge && face_vertex_count < 100)\<close> loop. \<^verbatim>\<open>edge\<close> is an
  \<^verbatim>\<open>int\<close> that only ever holds the value of a \<^verbatim>\<open>uint8_t\<close>, hence a natural number.
  The result is the triangle list and the final \<^verbatim>\<open>face_vertex_count\<close>, the number of
  completed iterations.
\<close>

function face_loop ::
  "Vector3 list \<Rightarrow> Edge list \<Rightarrow> u8 \<Rightarrow> nat \<Rightarrow> nat \<Rightarrow> Triangle list
     \<Rightarrow> fault + (Triangle list \<times> nat)"
where
  "face_loop vertices edges_processed start_edge edge face_vertex_count triangles =
     (if edge \<noteq> unat start_edge \<and> face_vertex_count < 100 then
        if edge \<ge> length edges_processed then Inr (triangles, face_vertex_count)
        else
          (case at edges_processed edge of
             Inl e \<Rightarrow> Inl e
           | Inr ee \<Rightarrow>
               let nextEdge = unat (next ee) in
               if nextEdge \<ge> length edges_processed then Inr (triangles, face_vertex_count)
               else
                 (case push_fan_triangle vertices edges_processed start_edge edge nextEdge
                         triangles of
                    Inl e \<Rightarrow> Inl e
                  | Inr triangles' \<Rightarrow>
                      face_loop vertices edges_processed start_edge nextEdge
                        (Suc face_vertex_count) triangles'))
      else Inr (triangles, face_vertex_count))"
  by pat_completeness auto
termination
  by (relation "measure (\<lambda>(vertices, edges_processed, start_edge, edge, face_vertex_count,
        triangles). 100 - face_vertex_count)") auto

declare face_loop.simps [simp del]

text \<open>The \<^verbatim>\<open>for (auto start_edge : faces_processed)\<close> loop around it.\<close>

fun hull_faces ::
  "Vector3 list \<Rightarrow> Edge list \<Rightarrow> u8 list \<Rightarrow> Triangle list \<Rightarrow> fault + Triangle list"
where
  "hull_faces vertices edges_processed [] triangles = Inr triangles"
| "hull_faces vertices edges_processed (start_edge # faces_processed) triangles =
     (if unat start_edge \<ge> length edges_processed then
        hull_faces vertices edges_processed faces_processed triangles
      else
        (case at edges_processed (unat start_edge) of
           Inl e \<Rightarrow> Inl e
         | Inr es \<Rightarrow>
             (case face_loop vertices edges_processed start_edge (unat (next es)) 0 triangles of
                Inl e \<Rightarrow> Inl e
              | Inr (triangles', face_vertex_count) \<Rightarrow>
                  hull_faces vertices edges_processed faces_processed triangles')))"

definition triangulate_hull :: "Vector3 list \<Rightarrow> u8 list \<Rightarrow> Edge list \<Rightarrow> fault + Triangle list"
where
  "triangulate_hull vertices faces_processed edges_processed =
     hull_faces vertices edges_processed faces_processed []"


text \<open>
  Vocabulary for the statements about one face: the \<open>k\<close>-th half-edge reached from the
  start half-edge by following \<^verbatim>\<open>next\<close>, a face loop that closes after \<open>n\<close> half-edges
  with every half-edge and origin in range, and the triangle the walk pushes at step \<open>k\<close>.
\<close>

definition next_edge :: "Edge list \<Rightarrow> nat \<Rightarrow> nat" where
  "next_edge edges_processed e = unat (next (edges_processed ! e))"

definition loop_edge :: "Edge list \<Rightarrow> u8 \<Rightarrow> nat \<Rightarrow> nat" where
  "loop_edge edges_processed start_edge k = (next_edge edges_processed ^^ k) (unat start_edge)"

definition closed_face_loop :: "Vector3 list \<Rightarrow> Edge list \<Rightarrow> u8 \<Rightarrow> nat \<Rightarrow> bool" where
  "closed_face_loop vertices edges_processed start_edge n \<longleftrightarrow>
     (\<forall>k \<in> set [0..<n]. loop_edge edges_processed start_edge k < length edges_processed) \<and>
     loop_edge edges_processed start_edge n = unat start_edge \<and>
     (\<forall>k \<in> set [1..<n]. loop_edge edges_processed start_edge k \<noteq> unat start_edge) \<and>
     (\<forall>k \<in> set [0..<n].
        unat (origin (edges_processed ! loop_edge edges_processed start_edge k)) < length vertices)"

definition fan_triangle :: "Vector3 list \<Rightarrow> Edge list \<Rightarrow> u8 \<Rightarrow> nat \<Rightarrow> Triangle" where
  "fan_triangle vertices edges_processed start_edge k =
     \<lparr>p1 = vertices ! unat (origin (edges_processed ! unat start_edge)),
      p2 = vertices ! unat (origin (edges_processed ! loop_edge edges_processed start_edge k)),
      p3 = vertices ! unat (origin (edges_processed ! loop_edge edges_processed start_edge (Suc k)))\<rparr>"

text \<open>
  Two concrete hulls. The unit square in the plane \<open>z = 0\<close> (\<open>0x3F800000\<close> is the
  pattern of \<open>1.0f\<close>) with its four half-edges \<open>0 \<rightarrow> 1 \<rightarrow> 2 \<rightarrow> 3 \<rightarrow> 0\<close>; and two half-edges of
  which the second is its own successor, so that a walk from the first never comes back.
\<close>

definition square_vertices :: "Vector3 list" where
  "square_vertices =
     [\<lparr>x = 0, y = 0, z = 0\<rparr>, \<lparr>x = 0x3F800000, y = 0, z = 0\<rparr>,
      \<lparr>x = 0x3F800000, y = 0x3F800000, z = 0\<rparr>, \<lparr>x = 0, y = 0x3F800000, z = 0\<rparr>]"

definition square_edges :: "Edge list" where
  "square_edges =
     [\<lparr>next = 1, twin = 0, origin = 0, face = 0\<rparr>, \<lparr>next = 2, twin = 0, origin = 1, face = 0\<rparr>,
      \<lparr>next = 3, twin = 0, origin = 2, face = 0\<rparr>, \<lparr>next = 0, twin = 0, origin = 3, face = 0\<rparr>]"

definition stuck_edges :: "Edge list" where
  "stuck_edges =
     [\<lparr>next = 1, twin = 0, origin = 0, face = 0\<rparr>, \<lparr>next = 1, twin = 1, origin = 0, face = 0\<rparr>]"

section \<open>Hex blob decoder (bytes\_to\_vec, lines 17--50)\<close>

text \<open>
  The macros \<^verbatim>\<open>INRANGE\<close>, \<^verbatim>\<open>getBits\<close> and \<^verbatim>\<open>get_byte\<close>. The character is promoted to
  \<^verbatim>\<open>int\<close>; the arithmetic is that of \<^verbatim>\<open>int\<close>, and the store into a \<^verbatim>\<open>uint8_t\<close> keeps the
  low eight bits. Whether \<^verbatim>\<open>char\<close> is signed changes the \<^verbatim>\<open>int\<close> by a multiple of 256
  outside the digit range only, so it does not change the byte.
\<close>

definition INRANGE :: "int \<Rightarrow> int \<Rightarrow> int \<Rightarrow> bool" where
  "INRANGE v a b \<longleftrightarrow> v \<ge> a \<and> v \<le> b"

definition getBits :: "char \<Rightarrow> int" where
  "getBits c =
     (if INRANGE (of_char c) (of_char CHR ''0'') (of_char CHR ''9'')
      then of_char c - of_char CHR ''0''
      else (of_char c AND NOT 0x20) - of_char CHR ''A'' + 0xa)"

definition get_byte :: "char \<Rightarrow> char \<Rightarrow> u8" where
  "get_byte c0 c1 = word_of_int (push_bit 4 (getBits c0) OR getBits c1)"

text \<open>
  The \<^verbatim>\<open>while (*p1 != '\0')\<close> loop. The read pointer \<^verbatim>\<open>p1\<close> is the rest \<open>cs\<close> of the C
  string (the terminator follows its last character), \<open>vec\<close> holds the bytes of the
  result vector and the write pointer \<^verbatim>\<open>p2\<close> is the offset \<open>wr\<close> in them. A token whose
  second character is the terminator moves \<^verbatim>\<open>p1\<close> past the end of the string; a token
  with no room left in the vector is written past its end.
\<close>

fun bytes_to_vec_loop :: "string \<Rightarrow> u8 list \<Rightarrow> nat \<Rightarrow> fault + u8 list" where
  "bytes_to_vec_loop [] vec wr = Inr vec"
| "bytes_to_vec_loop (c # cs) vec wr =
     (if c = CHR 0x00 then Inr vec
      else if c = CHR '' '' then bytes_to_vec_loop cs vec wr
      else if wr < length vec then
        (case cs of
           [] \<Rightarrow> Inl StringOverrun
         | d # cs' \<Rightarrow> bytes_to_vec_loop cs' (vec[wr := get_byte c d]) (Suc wr))
      else Inl BufferOverflow)"

text \<open>
  The vector's bytes read as elements of \<^verbatim>\<open>Ty\<close>: element \<open>i\<close> is made of the
  \<^verbatim>\<open>sizeof(Ty)\<close> bytes from offset \<open>i * sizeof(Ty)\<close>.
\<close>

definition elements :: "nat \<Rightarrow> (u8 list \<Rightarrow> 'a) \<Rightarrow> u8 list \<Rightarrow> 'a list" where
  "elements sizeof_Ty from_bytes raw =
     map (\<lambda>i. from_bytes (take sizeof_Ty (drop (i * sizeof_Ty) raw)))
       [0..<length raw div sizeof_Ty]"

text \<open>
  The template, with \<^verbatim>\<open>Ty\<close> given by its size and by how its bytes are read.
  \<^verbatim>\<open>vec.resize(num_elements + 1)\<close> value-initialises: all bytes are zero.
\<close>

definition bytes_to_vec :: "nat \<Rightarrow> (u8 list \<Rightarrow> 'a) \<Rightarrow> string \<Rightarrow> fault + 'a list" where
  "bytes_to_vec sizeof_Ty from_bytes bytes =
     (if bytes = [] then Inr []
      else
        let num_bytes = length bytes div 3;
            num_elements = num_bytes div sizeof_Ty;
            vec = replicate ((num_elements + 1) * sizeof_Ty) 0
        in case bytes_to_vec_loop bytes vec 0 of
             Inl e \<Rightarrow> Inl e
           | Inr vec' \<Rightarrow> Inr (elements sizeof_Ty from_bytes vec'))"

text \<open>The three instances the program uses, on a little-endian machine.\<close>

fun word32_of_bytes :: "u8 list \<Rightarrow> 32 word" where
  "word32_of_bytes [] = 0"
| "word32_of_bytes (b # bs) = ucast b OR push_bit 8 (word32_of_bytes bs)"

definition uint8_of_bytes :: "u8 list \<Rightarrow> u8" where
  "uint8_of_bytes bs = (case bs of [] \<Rightarrow> 0 | b # _ \<Rightarrow> b)"

definition bytes_to_vec_float :: "string \<Rightarrow> fault + float32 list" where
  "bytes_to_vec_float = bytes_to_vec 4 word32_of_bytes"

definition bytes_to_vec_int :: "string \<Rightarrow> fault + int32 list" where
  "bytes_to_vec_int = bytes_to_vec 4 word32_of_bytes"

definition bytes_to_vec_uint8 :: "string \<Rightarrow> fault + u8 list" where
  "bytes_to_vec_uint8 = bytes_to_vec 1 uint8_of_bytes"

text \<open>
  The input the decoder is written for: byte tokens of two hex digits, each followed by
  one space, three characters for every encoded byte.
\<close>

definition is_hex_digit :: "char \<Rightarrow> bool" where
  "is_hex_digit c \<longleftrightarrow> c \<in> set ''0123456789ABCDEFabcdef''"

fun valid_hex_pairs :: "string \<Rightarrow> bool" where
  "valid_hex_pairs [] = True"
| "valid_hex_pairs (a # b # c # rest) =
     (is_hex_digit a \<and> is_hex_digit b \<and> c = CHR '' '' \<and> valid_hex_pairs rest)"
| "valid_hex_pairs _ = False"

definition raw_byte_count :: "string \<Rightarrow> nat" where
  "raw_byte_count s = length s div 3"


section \<open>Collision attribute resolver (lines 80--113)\<close>

text \<open>
  The parser object, as far as this file uses it. Its header \<^verbatim>\<open>kv3-parser.hpp\<close> is not
  among the sources, so the parser is taken as it is given to the code: by the
  \<^verbatim>\<open>std::string\<close> that \<^verbatim>\<open>get_value\<close> returns for a path, whatever the document behind it.
\<close>

type_synonym c_kv3_parser = "string \<Rightarrow> string"

definition get_value :: "c_kv3_parser \<Rightarrow> string \<Rightarrow> string" where
  "get_value parser path = parser path"

text \<open>
  \<^verbatim>\<open>::tolower\<close> in the "C" locale, \<^verbatim>\<open>std::string::find_last_of\<close> for one character
  (\<^verbatim>\<open>npos\<close> is \<open>None\<close>) and \<^verbatim>\<open>std::string::substr\<close> for a start inside the string.
\<close>

definition tolower :: "char \<Rightarrow> char" where
  "tolower c =
     (if of_char CHR ''A'' \<le> (of_char c :: nat) \<and> (of_char c :: nat) \<le> of_char CHR ''Z''
      then char_of (of_char c + 32 :: nat) else c)"

definition find_last_of :: "string \<Rightarrow> char \<Rightarrow> nat option" where
  "find_last_of str c =
     (case filter (\<lambda>i. str ! i = c) (rev [0..<length str]) of
        [] \<Rightarrow> None
      | i # _ \<Rightarrow> Some i)"

definition substr :: "string \<Rightarrow> nat \<Rightarrow> nat \<Rightarrow> string" where
  "substr str pos len = take len (drop pos str)"

definition clean_collision_string :: "string \<Rightarrow> string" where
  "clean_collision_string str =
     (let cleaned =
        (if length str \<ge> 2 \<and> hd str = CHR 0x22 then
           (case find_last_of str (CHR 0x22) of
              None \<Rightarrow> str
            | Some last_quote \<Rightarrow>
                if last_quote > 0 then substr str 1 (last_quote - 1) else str)
         else str)
      in map tolower cleaned)"

text \<open>\<^verbatim>\<open>std::to_string\<close> of an \<^verbatim>\<open>int\<close> that is not negative.\<close>

fun to_string :: "nat \<Rightarrow> string" where
  "to_string n =
     (if n < 10 then [''0123456789'' ! n]
      else to_string (n div 10) @ [''0123456789'' ! (n mod 10)])"

declare to_string.simps [simp del]

definition collision_group_path :: "nat \<Rightarrow> string" where
  "collision_group_path index =
     ''m_collisionAttributes['' @ to_string index @ ''].m_CollisionGroupString''"

text \<open>
  The \<^verbatim>\<open>while (true)\<close> loop of \<^verbatim>\<open>get_collision_attribute_indices\<close>. \<^verbatim>\<open>index\<close> is an
  \<^verbatim>\<open>int\<close>: \<^verbatim>\<open>index++\<close> at \<open>2147483647\<close> overflows.
\<close>

function collision_attribute_loop :: "c_kv3_parser \<Rightarrow> nat \<Rightarrow> nat list \<Rightarrow> fault + nat list" where
  "collision_attribute_loop parser index indices =
     (if get_value parser (collision_group_path index) \<noteq> [] then
        if index < 2147483647 then
          collision_attribute_loop parser (Suc index)
            (if clean_collision_string (get_value parser (collision_group_path index)) = ''default''
             then indices @ [index] else indices)
        else Inl IntegerOverflow
      else Inr indices)"
  by pat_completeness auto
termination
  by (relation "measure (\<lambda>(parser, index, indices). 2147483647 - index)") auto

declare collision_attribute_loop.simps [simp del]

definition get_collision_attribute_indices :: "c_kv3_parser \<Rightarrow> fault + nat list" where
  "get_collision_attribute_indices parser = collision_attribute_loop parser 0 []"

text \<open>A parser with three labelled slots, of which the second is another group.\<close>

definition three_slot_store :: c_kv3_parser where
  "three_slot_store =
     (\<lambda>path. [])
       (''m_collisionAttributes[0].m_CollisionGroupString'' := ''DEFAULT'',
        ''m_collisionAttributes[1].m_CollisionGroupString'' := ''water'',
        ''m_collisionAttributes[2].m_CollisionGroupString'' :=
          CHR 0x22 # ''default'' @ [CHR 0x22, CHR 0x0A])"

text \<open>
  Vocabulary for the statements about the scan: \<open>n\<close> is the first slot whose query gives
  the empty string, and slot \<open>i\<close> carries a label that cleans to \<^verbatim>\<open>"default"\<close>.
\<close>

definition first_empty_slot :: "c_kv3_parser \<Rightarrow> nat \<Rightarrow> bool" where
  "first_empty_slot parser n \<longleftrightarrow>
     get_value parser (collision_group_path n) = [] \<and>
     (\<forall>i \<in> set [0..<n]. get_value parser (collision_group_path i) \<noteq> [])"

definition accepted_label :: "c_kv3_parser \<Rightarrow> nat \<Rightarrow> bool" where
  "accepted_label parser i \<longleftrightarrow>
     clean_collision_string (get_value parser (collision_group_path i)) = ''default''"




section \<open>Indexed mesh triangulation (main, lines 272--282)\<close>

text \<open>
  \<^verbatim>\<open>triangle_processed[i] < vertices.size()\<close> compares an \<^verbatim>\<open>int\<close> with a \<^verbatim>\<open>size_t\<close>: the
  \<^verbatim>\<open>int\<close> is converted to the unsigned 64-bit type first. The same conversion makes the
  subscript of \<^verbatim>\<open>vertices[triangle_processed[i]]\<close>.
\<close>

definition size_t_of_int :: "int32 \<Rightarrow> nat" where
  "size_t_of_int v = unat (scast v :: 64 word)"

text \<open>
  The loop counter \<^verbatim>\<open>i\<close> is an \<^verbatim>\<open>int\<close>: the sums \<^verbatim>\<open>i + 1\<close>, \<^verbatim>\<open>i + 2\<close> and \<^verbatim>\<open>i += 3\<close> overflow
  above \<open>2147483647\<close>.
\<close>

definition int_add :: "nat \<Rightarrow> nat \<Rightarrow> fault + nat" where
  "int_add i k = (if i + k \<le> 2147483647 then Inr (i + k) else Inl IntegerOverflow)"

definition push_mesh_triangle ::
  "Vector3 list \<Rightarrow> int32 list \<Rightarrow> nat \<Rightarrow> Triangle list \<Rightarrow> fault + Triangle list"
where
  "push_mesh_triangle vertices triangle_processed i triangles =
     bind (at triangle_processed i) (\<lambda>a.
       if size_t_of_int a < length vertices then
         bind (int_add i 1) (\<lambda>i1.
         bind (at triangle_processed i1) (\<lambda>b.
           if size_t_of_int b < length vertices then
             bind (int_add i 2) (\<lambda>i2.
             bind (at triangle_processed i2) (\<lambda>c.
               if size_t_of_int c < length vertices then
                 bind (at vertices (size_t_of_int a)) (\<lambda>va.
                 bind (at vertices (size_t_of_int b)) (\<lambda>vb.
                 bind (at vertices (size_t_of_int c)) (\<lambda>vc.
                   Inr (triangles @ [\<lparr>p1 = va, p2 = vb, p3 = vc\<rparr>]))))
               else Inr triangles))
           else Inr triangles))
       else Inr triangles)"

text \<open>The \<^verbatim>\<open>for (int i = 0; i < triangle_processed.size(); i += 3)\<close> loop.\<close>

function mesh_loop ::
  "Vector3 list \<Rightarrow> int32 list \<Rightarrow> nat \<Rightarrow> Triangle list \<Rightarrow> fault + Triangle list"
where
  "mesh_loop vertices triangle_processed i triangles =
     (if i < length triangle_processed then
        (case push_mesh_triangle vertices triangle_processed i triangles of
           Inl e \<Rightarrow> Inl e
         | Inr triangles' \<Rightarrow>
             if i + 3 \<le> 2147483647 then
               mesh_loop vertices triangle_processed (i + 3) triangles'
             else Inl IntegerOverflow)
      else Inr triangles)"
  by pat_completeness auto
termination
  by (relation "measure (\<lambda>(vertices, triangle_processed, i, triangles).
        length triangle_processed - i)") auto

declare mesh_loop.simps [simp del]

definition triangulate_mesh :: "Vector3 list \<Rightarrow> int32 list \<Rightarrow> fault + Triangle list" where
  "triangulate_mesh vertices triangle_processed = mesh_loop vertices triangle_processed 0 []"

text \<open>
  What the \<open>k\<close>-th complete triple of the index array contributes, in the words of the
  specification: one triangle when its three indices are not negative and below the number
  of vertices, nothing otherwise.
\<close>

definition index_ok :: "Vector3 list \<Rightarrow> int32 \<Rightarrow> bool" where
  "index_ok vertices v \<longleftrightarrow> 0 \<le> sint v \<and> nat (sint v) < length vertices"

definition triple_triangles :: "Vector3 list \<Rightarrow> int32 list \<Rightarrow> nat \<Rightarrow> Triangle list" where
  "triple_triangles vertices indices k =
     (if index_ok vertices (indices ! (3 * k)) \<and> index_ok vertices (indices ! (3 * k + 1)) \<and>
         index_ok vertices (indices ! (3 * k + 2))
      then [\<lparr>p1 = vertices ! nat (sint (indices ! (3 * k))),
             p2 = vertices ! nat (sint (indices ! (3 * k + 1))),
             p3 = vertices ! nat (sint (indices ! (3 * k + 2)))\<rparr>]
      else [])"

section \<open>Output file (main, lines 300--311)\<close>

text \<open>
  \<^verbatim>\<open>out.write\<close> copies the memory of the triangle vector: for each triangle its nine
  floats in declaration order, each as its four bytes, lowest first on the little-endian
  machine the program is written for; a \<^verbatim>\<open>Triangle\<close> of nine floats has no padding.
  Whether the stream could be opened is the environment's answer \<open>is_open\<close>; a write to
  an open stream is taken to succeed, the code does not test it. The result is the content
  of the file written, or \<open>None\<close> when none is.
\<close>

definition bytes_of_float :: "float32 \<Rightarrow> u8 list" where
  "bytes_of_float w = [ucast w, ucast (drop_bit 8 w), ucast (drop_bit 16 w), ucast (drop_bit 24 w)]"

definition bytes_of_Vector3 :: "Vector3 \<Rightarrow> u8 list" where
  "bytes_of_Vector3 v = bytes_of_float (x v) @ bytes_of_float (y v) @ bytes_of_float (z v)"

definition bytes_of_Triangle :: "Triangle \<Rightarrow> u8 list" where
  "bytes_of_Triangle t = bytes_of_Vector3 (p1 t) @ bytes_of_Vector3 (p2 t) @ bytes_of_Vector3 (p3 t)"

definition write_output :: "bool \<Rightarrow> Triangle list \<Rightarrow> u8 list option" where
  "write_output is_open triangles =
     (if length triangles > 0 then
        if is_open then Some (concat (map bytes_of_Triangle triangles)) else None
      else None)"

definition floats_of_Triangle :: "Triangle \<Rightarrow> float32 list" where
  "floats_of_Triangle t =
     [x (p1 t), y (p1 t), z (p1 t), x (p2 t), y (p2 t), z (p2 t), x (p3 t), y (p3 t), z (p3 t)]"


section \<open>Properties of the hull triangulation\<close>

lemma at_in_range: "i < length vec \<Longrightarrow> at vec i = Inr (vec ! i)"
  by (simp add: at_def)

lemma bind_Inr: "bind (Inr v) f = f v"
  by (simp add: bind_def)

lemma push_fan_triangle_in_range:
  assumes "unat start_edge < length edges_processed" "edge < length edges_processed"
    "nextEdge < length edges_processed"
  shows "push_fan_triangle vertices edges_processed start_edge edge nextEdge triangles =
    Inr (if unat (origin (edges_processed ! unat start_edge)) < length vertices \<and>
            unat (origin (edges_processed ! edge)) < length vertices \<and>
            unat (origin (edges_processed ! nextEdge)) < length vertices
         then triangles @
           [\<lparr>p1 = vertices ! unat (origin (edges_processed ! unat start_edge)),
             p2 = vertices ! unat (origin (edges_processed ! edge)),
             p3 = vertices ! unat (origin (edges_processed ! nextEdge))\<rparr>]
         else triangles)"
  using assms by (simp add: push_fan_triangle_def at_in_range bind_Inr)

lemma face_loop_total:
  assumes "unat start_edge < length edges_processed"
  shows "\<exists>ts n. face_loop vertices edges_processed start_edge edge face_vertex_count triangles
            = Inr (ts, n) \<and> n \<le> max face_vertex_count 100"
  using assms
proof (induction vertices edges_processed start_edge edge face_vertex_count triangles
    rule: face_loop.induct)
  case (1 vertices edges_processed start_edge edge face_vertex_count triangles)
  show ?case
  proof (cases "edge \<noteq> unat start_edge \<and> face_vertex_count < 100")
    case False
    then show ?thesis by (subst face_loop.simps) auto
  next
    case go: True
    show ?thesis
    proof (cases "edge < length edges_processed")
      case False
      with go show ?thesis by (subst face_loop.simps) auto
    next
      case e: True
      let ?n = "unat (next (edges_processed ! edge))"
      show ?thesis
      proof (cases "?n < length edges_processed")
        case False
        with go e show ?thesis by (subst face_loop.simps) (auto simp: at_in_range)
      next
        case n: True
        obtain ts where ts: "push_fan_triangle vertices edges_processed start_edge edge ?n triangles = Inr ts"
          using push_fan_triangle_in_range [OF "1.prems" e n] by simp
        have "\<exists>ts' k. face_loop vertices edges_processed start_edge ?n (Suc face_vertex_count) ts
            = Inr (ts', k) \<and> k \<le> max (Suc face_vertex_count) 100"
          using "1.IH" [of "edges_processed ! edge" ?n ts] go e n ts "1.prems"
          by (simp add: at_in_range)
        then obtain ts' k where "face_loop vertices edges_processed start_edge ?n (Suc face_vertex_count) ts
            = Inr (ts', k)" "k \<le> max (Suc face_vertex_count) 100" by blast
        moreover have "face_loop vertices edges_processed start_edge edge face_vertex_count triangles
          = face_loop vertices edges_processed start_edge ?n (Suc face_vertex_count) ts"
          using go e n ts by (subst face_loop.simps) (simp add: at_in_range)
        ultimately show ?thesis using go by auto
      qed
    qed
  qed
qed

lemma hull_faces_total: "\<exists>ts. hull_faces vertices edges_processed faces_processed triangles = Inr ts"
proof (induction faces_processed arbitrary: triangles)
  case Nil
  show ?case by simp
next
  case (Cons start_edge faces_processed)
  show ?case
  proof (cases "unat start_edge < length edges_processed")
    case False
    then show ?thesis using Cons.IH by simp
  next
    case True
    obtain ts n where "face_loop vertices edges_processed start_edge
        (unat (next (edges_processed ! unat start_edge))) 0 triangles = Inr (ts, n)"
      using face_loop_total [OF True] by blast
    then show ?thesis using True Cons.IH [of ts] by (simp add: at_in_range)
  qed
qed


lemma loop_edge_0: "loop_edge edges_processed start_edge 0 = unat start_edge"
  by (simp add: loop_edge_def)

lemma loop_edge_Suc:
  "loop_edge edges_processed start_edge (Suc k) =
     unat (next (edges_processed ! loop_edge edges_processed start_edge k))"
  by (simp add: loop_edge_def next_edge_def)

lemma closed_face_loop_edge:
  "closed_face_loop vertices edges_processed start_edge n \<Longrightarrow> k < n \<Longrightarrow>
     loop_edge edges_processed start_edge k < length edges_processed \<and>
     unat (origin (edges_processed ! loop_edge edges_processed start_edge k)) < length vertices"
  by (simp add: closed_face_loop_def)

lemma closed_face_loop_distinct:
  "closed_face_loop vertices edges_processed start_edge n \<Longrightarrow> 1 \<le> k \<Longrightarrow> k < n \<Longrightarrow>
     loop_edge edges_processed start_edge k \<noteq> unat start_edge"
  by (simp add: closed_face_loop_def)

lemma closed_face_loop_closes:
  "closed_face_loop vertices edges_processed start_edge n \<Longrightarrow>
     loop_edge edges_processed start_edge n = unat start_edge"
  by (simp add: closed_face_loop_def)

lemma face_loop_closed_from:
  assumes cl: "closed_face_loop vertices edges_processed start_edge n"
    and n: "0 < n" "n \<le> 101"
    and j: "1 \<le> j" "j \<le> n"
  shows "face_loop vertices edges_processed start_edge
           (loop_edge edges_processed start_edge j) (j - 1) triangles =
         Inr (triangles @ map (fan_triangle vertices edges_processed start_edge) [j..<n], n - 1)"
  using j(2,1)
proof (induction j arbitrary: triangles rule: inc_induct)
  case base
  have "loop_edge edges_processed start_edge n = unat start_edge"
    by (rule closed_face_loop_closes [OF cl])
  then show ?case by (subst face_loop.simps) simp
next
  case (step j)
  let ?e = "loop_edge edges_processed start_edge"
  have s0: "unat start_edge < length edges_processed"
    and o0: "unat (origin (edges_processed ! unat start_edge)) < length vertices"
    using closed_face_loop_edge [OF cl n(1)] by (simp_all add: loop_edge_0)
  have ej: "?e j < length edges_processed" "?e j \<noteq> unat start_edge"
    "unat (origin (edges_processed ! ?e j)) < length vertices"
    using closed_face_loop_edge [OF cl step.hyps(2)]
      closed_face_loop_distinct [OF cl step.prems step.hyps(2)] by simp_all
  have en: "?e (Suc j) < length edges_processed"
    "unat (origin (edges_processed ! ?e (Suc j))) < length vertices"
  proof -
    show "?e (Suc j) < length edges_processed"
    proof (cases "Suc j = n")
      case True
      then show ?thesis using closed_face_loop_closes [OF cl] s0 by simp
    next
      case False
      then show ?thesis using closed_face_loop_edge [OF cl, of "Suc j"] step.hyps by simp
    qed
    show "unat (origin (edges_processed ! ?e (Suc j))) < length vertices"
    proof (cases "Suc j = n")
      case True
      then show ?thesis using closed_face_loop_closes [OF cl] o0 by simp
    next
      case False
      then show ?thesis using closed_face_loop_edge [OF cl, of "Suc j"] step.hyps by simp
    qed
  qed
  have cnt: "j - 1 < 100" using step.hyps n by simp
  have push: "push_fan_triangle vertices edges_processed start_edge (?e j) (?e (Suc j)) triangles =
      Inr (triangles @ [fan_triangle vertices edges_processed start_edge j])"
    using push_fan_triangle_in_range [OF s0 ej(1) en(1)] o0 ej(3) en(2)
    by (simp add: fan_triangle_def)
  have "face_loop vertices edges_processed start_edge (?e j) (j - 1) triangles =
      face_loop vertices edges_processed start_edge (?e (Suc j)) (Suc (j - 1))
        (triangles @ [fan_triangle vertices edges_processed start_edge j])"
    using ej en cnt push
    by (subst face_loop.simps) (simp add: at_in_range loop_edge_Suc [symmetric])
  also have "Suc (j - 1) = Suc j - 1" using step.prems by simp
  also have "face_loop vertices edges_processed start_edge (?e (Suc j)) (Suc j - 1)
        (triangles @ [fan_triangle vertices edges_processed start_edge j]) =
      Inr ((triangles @ [fan_triangle vertices edges_processed start_edge j]) @
        map (fan_triangle vertices edges_processed start_edge) [Suc j..<n], n - 1)"
    by (rule step.IH) simp
  finally show ?case using step.hyps by (simp add: upt_conv_Cons)
qed


text \<open>
  C9. A face whose loop closes after \<open>n\<close> half-edges (\<open>3 \<le> n\<close>, within the bound of 100
  steps, every half-edge and every origin in range): the walk completes \<open>n - 1\<close>
  iterations and pushes exactly \<open>n - 1\<close> triangles, one for each half-edge after the
  first, all anchored at the start vertex. The last of them is degenerate: its
  first and its third vertex are both the vertex of the start half-edge, because the
  closing step, where \<^verbatim>\<open>nextEdge\<close> is the start half-edge again, still pushes a triangle.
\<close>

theorem face_loop_closed_ngon:
  assumes "closed_face_loop vertices edges_processed start_edge n" "3 \<le> n" "n \<le> 101"
  shows "\<exists>ts. face_loop vertices edges_processed start_edge
             (unat (next (edges_processed ! unat start_edge))) 0 triangles
           = Inr (triangles @ ts, n - 1) \<and>
         ts = map (fan_triangle vertices edges_processed start_edge) [1..<n] \<and>
         length ts = n - 1 \<and>
         p1 (last ts) = vertices ! unat (origin (edges_processed ! unat start_edge)) \<and>
         p3 (last ts) = p1 (last ts)"
proof -
  let ?ts = "map (fan_triangle vertices edges_processed start_edge) [1..<n]"
  have "face_loop vertices edges_processed start_edge
           (loop_edge edges_processed start_edge 1) (1 - 1) triangles =
         Inr (triangles @ ?ts, n - 1)"
    using assms by (intro face_loop_closed_from) auto
  then have run: "face_loop vertices edges_processed start_edge
             (unat (next (edges_processed ! unat start_edge))) 0 triangles
           = Inr (triangles @ ?ts, n - 1)"
    using loop_edge_Suc [of edges_processed start_edge 0] by (simp add: loop_edge_0)
  have ne: "[1..<n] \<noteq> []" using assms(2) by simp
  have l: "last ?ts = fan_triangle vertices edges_processed start_edge (n - 1)"
    using ne assms(2) by (simp add: last_map)
  have cl: "loop_edge edges_processed start_edge (Suc (n - 1)) = unat start_edge"
    using closed_face_loop_closes [OF assms(1)] assms(2) by simp
  have "p1 (last ?ts) = vertices ! unat (origin (edges_processed ! unat start_edge))"
    "p3 (last ?ts) = p1 (last ?ts)"
    unfolding l using cl by (simp_all add: fan_triangle_def)
  with run show ?thesis by (intro exI [of _ ?ts]) simp
qed

theorem face_loop_closed_ngon_witness:
  "closed_face_loop square_vertices square_edges 0 4 \<and> (3::nat) \<le> 4 \<and> (4::nat) \<le> 101 \<and>
   (\<exists>ts. face_loop square_vertices square_edges 0 (unat (next (square_edges ! unat (0::u8)))) 0 []
            = Inr ([] @ ts, 4 - 1) \<and>
         length ts = 4 - 1 \<and>
         p1 (last ts) = square_vertices ! unat (origin (square_edges ! unat (0::u8))) \<and>
         p3 (last ts) = p1 (last ts))"
proof -
  have h: "closed_face_loop square_vertices square_edges 0 4"
    by code_simp
  show ?thesis
    using h face_loop_closed_ngon [OF h, of "[]"] by auto
qed

text \<open>
  C1. The hull of one square face, the four half-edges \<open>0 \<rightarrow> 1 \<rightarrow> 2 \<rightarrow> 3 \<rightarrow> 0\<close> over four distinct
  vertices, face list \<open>[0]\<close>: the triangulation returns three triangles, not two. All three
  start at the vertex of the start half-edge; the first two are the fan of the square, the
  third is the degenerate triangle of the closing step.
\<close>

theorem triangulate_hull_square:
  "triangulate_hull square_vertices [0] square_edges =
     Inr [\<lparr>p1 = square_vertices ! 0, p2 = square_vertices ! 1, p3 = square_vertices ! 2\<rparr>,
          \<lparr>p1 = square_vertices ! 0, p2 = square_vertices ! 2, p3 = square_vertices ! 3\<rparr>,
          \<lparr>p1 = square_vertices ! 0, p2 = square_vertices ! 3, p3 = square_vertices ! 0\<rparr>]"
  by code_simp

text \<open>
  C2, as the code has it. For every input the triangulation returns a triangle list: it
  terminates, and no read of \<^verbatim>\<open>edges_processed\<close> or \<^verbatim>\<open>vertices\<close> is out of range (such a
  read is the result \<open>Inl OutOfRange\<close>). The walk of a face whose start half-edge is in
  range, from any half-edge, completes at most 100 iterations.
\<close>

theorem triangulate_hull_total:
  "(\<exists>ts. triangulate_hull vertices faces_processed edges_processed = Inr ts) \<and>
   (\<forall>start_edge edge triangles. unat start_edge < length edges_processed \<longrightarrow>
      (\<exists>ts n. face_loop vertices edges_processed start_edge edge 0 triangles = Inr (ts, n) \<and>
         n \<le> 100))"
proof
  show "\<exists>ts. triangulate_hull vertices faces_processed edges_processed = Inr ts"
    unfolding triangulate_hull_def by (rule hull_faces_total)
  show "\<forall>start_edge edge triangles. unat start_edge < length edges_processed \<longrightarrow>
      (\<exists>ts n. face_loop vertices edges_processed start_edge edge 0 triangles = Inr (ts, n) \<and>
         n \<le> 100)"
    using face_loop_total [of _ edges_processed vertices _ 0] by simp
qed

theorem triangulate_hull_total_witness:
  "(\<exists>ts. triangulate_hull square_vertices [0, 7] square_edges = Inr ts) \<and>
   unat (0::u8) < length square_edges \<and>
   (\<exists>ts n. face_loop square_vertices square_edges 0 1 0 [] = Inr (ts, n) \<and> n \<le> 100)"
proof -
  have h: "unat (0::u8) < length square_edges"
    by (simp add: square_edges_def)
  show ?thesis
    using h triangulate_hull_total [of square_vertices "[0, 7]" square_edges] by blast
qed

text \<open>
  The walk from half-edge 0 of \<open>stuck_edges\<close> never returns to it: it completes exactly 100
  iterations, which is not fewer than 100.
\<close>

theorem face_loop_hundred_counterexample:
  "unat (0::u8) < length stuck_edges \<and>
   face_loop [] stuck_edges 0 (unat (next (stuck_edges ! unat (0::u8)))) 0 [] = Inr ([], 100) \<and>
   \<not> (100::nat) < 100"
  by code_simp


section \<open>Properties of the hex blob decoder\<close>

lemma bytes_to_vec_loop_length:
  "bytes_to_vec_loop s vec wr = Inr vec' \<Longrightarrow> length vec' = length vec"
  by (induction s vec wr rule: bytes_to_vec_loop.induct)
     (auto split: if_splits list.splits)

lemma is_hex_digit_token: "is_hex_digit c \<Longrightarrow> c \<noteq> CHR 0x00 \<and> c \<noteq> CHR '' ''"
  by (auto simp: is_hex_digit_def)

lemma bytes_to_vec_loop_valid:
  "valid_hex_pairs s \<Longrightarrow> wr + length s div 3 \<le> length vec \<Longrightarrow>
     \<exists>vec'. bytes_to_vec_loop s vec wr = Inr vec'"
proof (induction s arbitrary: vec wr rule: valid_hex_pairs.induct)
  case 1
  show ?case by simp
next
  case (2 a b c rest)
  have ab: "a \<noteq> CHR 0x00" "a \<noteq> CHR '' ''"
    using "2.prems"(1) is_hex_digit_token [of a] by simp_all
  have c: "c = CHR '' ''" and rest: "valid_hex_pairs rest"
    using "2.prems"(1) by simp_all
  have room: "wr < length vec" "Suc wr + length rest div 3 \<le> length (vec[wr := get_byte a b])"
    using "2.prems"(2) by simp_all
  obtain vec' where "bytes_to_vec_loop rest (vec[wr := get_byte a b]) (Suc wr) = Inr vec'"
    using "2.IH" [OF rest room(2)] by blast
  then show ?case using ab c room(1) by simp
qed simp_all

lemma buffer_room:
  assumes "0 < sz"
  shows "n < (n div sz + 1) * (sz::nat)"
proof -
  have "n = sz * (n div sz) + n mod sz" by simp
  moreover have "n mod sz < sz" using assms by simp
  ultimately have "n < sz * (n div sz) + sz" by linarith
  then show ?thesis by (simp add: algebra_simps)
qed

lemma length_elements: "length (elements sz fb raw) = length raw div sz"
  by (simp add: elements_def)

lemma bytes_to_vec_length:
  assumes "bytes \<noteq> []" "0 < sz" "bytes_to_vec sz fb bytes = Inr v"
  shows "length v = length bytes div 3 div sz + 1"
proof -
  let ?vec = "replicate ((length bytes div 3 div sz + 1) * sz) (0::u8)"
  obtain vec' where run: "bytes_to_vec_loop bytes ?vec 0 = Inr vec'"
    and v: "v = elements sz fb vec'"
    using assms(1,3) by (auto simp: bytes_to_vec_def Let_def split: sum.splits)
  have "length vec' = (length bytes div 3 div sz + 1) * sz"
    using bytes_to_vec_loop_length [OF run] by simp
  then show ?thesis using v assms(2) by (simp add: length_elements)
qed

lemma bytes_to_vec_valid_returns:
  assumes "valid_hex_pairs s" "0 < sz"
  shows "\<exists>v. bytes_to_vec sz fb s = Inr v"
proof (cases "s = []")
  case True
  then show ?thesis by (simp add: bytes_to_vec_def)
next
  case False
  let ?vec = "replicate ((length s div 3 div sz + 1) * sz) (0::u8)"
  have "0 + length s div 3 \<le> length ?vec"
    using buffer_room [OF assms(2), of "length s div 3"] by simp
  then obtain vec' where "bytes_to_vec_loop s ?vec 0 = Inr vec'"
    using bytes_to_vec_loop_valid [OF assms(1)] by blast
  then show ?thesis using False by (simp add: bytes_to_vec_def)
qed

text \<open>
  For a valid hex-pair string that is not empty the decoder returns one element more than
  the quotient of the encoded bytes by the element size.
\<close>

lemma bytes_to_vec_valid_length:
  assumes "valid_hex_pairs s" "0 < sizeof_Ty"
  shows "\<exists>v. bytes_to_vec sizeof_Ty from_bytes s = Inr v \<and>
           length v = (if s = [] then 0 else raw_byte_count s div sizeof_Ty + 1)"
proof (cases "s = []")
  case True
  then show ?thesis by (simp add: bytes_to_vec_def)
next
  case False
  obtain v where run: "bytes_to_vec sizeof_Ty from_bytes s = Inr v"
    using bytes_to_vec_valid_returns [OF assms] by blast
  show ?thesis
    using run bytes_to_vec_length [OF False assms(2) run] False
    by (simp add: raw_byte_count_def)
qed

text \<open>
  C3. The four bytes of \<open>1.0f\<close>, a valid hex-pair string of four encoded bytes with its
  trailing separator, decode as \<^verbatim>\<open>float\<close> to two elements, the value and a zero that no
  byte of the string encodes, where \<open>4 div 4 = 1\<close> element is encoded:
  \<^verbatim>\<open>vec.resize(num_elements + 1)\<close> adds one to the count the code itself calls
  \<^verbatim>\<open>num_elements\<close>. The same bytes without the trailing separator decode to the one
  element.
\<close>

theorem bytes_to_vec_float_extra_element:
  "valid_hex_pairs ''00 00 80 3F '' \<and>
   raw_byte_count ''00 00 80 3F '' div 4 = 1 \<and>
   bytes_to_vec_float ''00 00 80 3F '' = Inr [0x3F800000, 0] \<and>
   bytes_to_vec_float ''00 00 80 3F'' = Inr [0x3F800000]"
  by code_simp

text \<open>
  C10, as the code has it. Whenever the decoder returns for a string that is not empty,
  the sequence it returns has \<open>(length s div 3) div sizeof(Ty) + 1\<close> elements, so at least
  one: no string that is not empty decodes to the empty sequence, whatever its length
  and its characters, and the driver's branch for a decoded blob that is empty is not
  taken for it. The decoder does return for every valid hex-pair string.
\<close>

theorem bytes_to_vec_nonempty:
  assumes "s \<noteq> []" "0 < sizeof_Ty"
  shows "(\<forall>v. bytes_to_vec sizeof_Ty from_bytes s = Inr v \<longrightarrow>
            length v = length s div 3 div sizeof_Ty + 1 \<and> v \<noteq> []) \<and>
         (valid_hex_pairs s \<longrightarrow> (\<exists>v. bytes_to_vec sizeof_Ty from_bytes s = Inr v))"
proof -
  have "length v = length s div 3 div sizeof_Ty + 1 \<and> v \<noteq> []"
    if "bytes_to_vec sizeof_Ty from_bytes s = Inr v" for v
    using bytes_to_vec_length [OF assms that] by auto
  then show ?thesis
    using bytes_to_vec_valid_returns [OF _ assms(2)] by blast
qed

theorem bytes_to_vec_nonempty_witness:
  "''3F '' \<noteq> [] \<and> (0::nat) < 4 \<and> valid_hex_pairs ''3F '' \<and>
   bytes_to_vec 4 word32_of_bytes ''3F '' = Inr [0x3F] \<and>
   length [0x3F :: float32] = length ''3F '' div 3 div 4 + 1 \<and> [0x3F :: float32] \<noteq> []"
proof -
  have h: "bytes_to_vec 4 word32_of_bytes ''3F '' = Inr [0x3F]"
    by code_simp
  have v: "valid_hex_pairs ''3F ''"
    by code_simp
  have n: "''3F '' \<noteq> []" and p: "(0::nat) < 4"
    by simp_all
  have "length [0x3F :: float32] = length ''3F '' div 3 div 4 + 1 \<and> [0x3F :: float32] \<noteq> []"
    using bytes_to_vec_nonempty [OF n p, of word32_of_bytes] h by blast
  then show ?thesis
    using h v by simp
qed

text \<open>
  The string \<^verbatim>\<open>"A"\<close> is not empty, and decoding it does not return: the token's second
  character is the terminator, and \<^verbatim>\<open>p1 += 2\<close> moves the read pointer past the end of
  the string.
\<close>

theorem bytes_to_vec_overrun_counterexample:
  "''A'' \<noteq> [] \<and> bytes_to_vec_uint8 ''A'' = Inl StringOverrun"
  by code_simp

section \<open>Properties of the collision attribute resolver\<close>

lemma find_last_of_closing:
  assumes "q \<notin> set tail"
  shows "find_last_of (pre @ q # tail) q = Some (length pre)"
proof -
  let ?s = "pre @ q # tail"
  let ?p = "length pre"
  have len: "length ?s = ?p + Suc (length tail)" by simp
  have "[0..<?p + Suc (length tail)] = [0..<?p] @ [?p..<?p + Suc (length tail)]"
    using upt_add_eq_append [of 0 ?p "Suc (length tail)"] by simp
  moreover have "[?p..<?p + Suc (length tail)] = ?p # [Suc ?p..<?p + Suc (length tail)]"
    by (rule upt_conv_Cons) simp
  ultimately have split: "[0..<length ?s] = [0..<?p] @ ?p # [Suc ?p..<length ?s]"
    unfolding len by (simp only:)
  have tail: "?s ! i \<noteq> q" if "Suc ?p \<le> i" "i < length ?s" for i
  proof -
    define d where "d = i - Suc ?p"
    have i: "i = ?p + Suc d" and d: "d < length tail"
      using that by (simp_all add: d_def)
    have "?s ! (?p + Suc d) = tail ! d" by (simp add: nth_append)
    moreover have "tail ! d \<in> set tail" using d by (rule nth_mem)
    ultimately show ?thesis using assms i by auto
  qed
  have none: "filter (\<lambda>i. ?s ! i = q) (rev [Suc ?p..<length ?s]) = []"
  proof -
    have "\<forall>i \<in> set (rev [Suc ?p..<length ?s]). \<not> ?s ! i = q"
    proof
      fix i
      assume "i \<in> set (rev [Suc ?p..<length ?s])"
      then have "Suc ?p \<le> i" "i < length ?s"
        by (simp_all only: set_rev set_upt atLeastLessThan_iff)
      then show "\<not> ?s ! i = q" by (rule tail)
    qed
    then show ?thesis by (simp only: filter_empty_conv)
  qed
  have here: "?s ! ?p = q" by simp
  have "rev [0..<length ?s] = rev [Suc ?p..<length ?s] @ ?p # rev [0..<?p]"
    by (subst split) (simp only: rev_append rev.simps append_assoc append_Cons append_Nil)
  then have "filter (\<lambda>i. ?s ! i = q) (rev [0..<length ?s]) =
      filter (\<lambda>i. ?s ! i = q) (rev [Suc ?p..<length ?s]) @
        filter (\<lambda>i. ?s ! i = q) (?p # rev [0..<?p])"
    by (simp only: filter_append)
  also have "\<dots> = ?p # filter (\<lambda>i. ?s ! i = q) (rev [0..<?p])"
    unfolding none using here by (simp only: append_Nil filter.simps if_True refl)
  finally have "filter (\<lambda>i. ?s ! i = q) (rev [0..<length ?s]) =
      ?p # filter (\<lambda>i. ?s ! i = q) (rev [0..<?p])" .
  then show ?thesis by (simp add: find_last_of_def)
qed

lemma clean_collision_string_quoted:
  assumes "CHR 0x22 \<notin> set tail"
  shows "clean_collision_string (CHR 0x22 # body @ CHR 0x22 # tail) = map tolower body"
proof -
  have "find_last_of (CHR 0x22 # body @ CHR 0x22 # tail) (CHR 0x22) = Some (Suc (length body))"
    using find_last_of_closing [OF assms, of "CHR 0x22 # body"] by simp
  then show ?thesis by (simp add: clean_collision_string_def substr_def)
qed


lemma collision_attribute_loop_scan:
  assumes "first_empty_slot parser n" "n \<le> 2147483647" "index \<le> n"
  shows "collision_attribute_loop parser index indices =
           Inr (indices @ filter (accepted_label parser) [index..<n])"
  using assms(3)
proof (induction index arbitrary: indices rule: inc_induct)
  case base
  have "get_value parser (collision_group_path n) = []"
    using assms(1) by (simp add: first_empty_slot_def)
  then show ?case by (subst collision_attribute_loop.simps) simp
next
  case (step index)
  have ne: "get_value parser (collision_group_path index) \<noteq> []"
    using assms(1) step.hyps by (simp add: first_empty_slot_def)
  have lt: "index < 2147483647" using step.hyps assms(2) by simp
  have "collision_attribute_loop parser index indices =
      collision_attribute_loop parser (Suc index)
        (if accepted_label parser index then indices @ [index] else indices)"
    using ne lt by (subst collision_attribute_loop.simps) (simp add: accepted_label_def)
  also have "\<dots> = Inr ((if accepted_label parser index then indices @ [index] else indices) @
      filter (accepted_label parser) [Suc index..<n])"
    by (rule step.IH)
  finally show ?case using step.hyps by (simp add: upt_conv_Cons)
qed

lemma clean_Default: "clean_collision_string ''Default'' = ''default''"
  by code_simp

lemma clean_DEFAULT: "clean_collision_string ''DEFAULT'' = ''default''"
  by code_simp

lemma clean_water: "clean_collision_string ''water'' = ''water''"
  by code_simp

lemma clean_quoted_default:
  "clean_collision_string (CHR 0x22 # ''default'' @ [CHR 0x22, CHR 0x0A]) = ''default''"
  by code_simp

lemma three_slot_store_first_empty: "first_empty_slot three_slot_store 3"
  by (simp add: first_empty_slot_def three_slot_store_def get_value_def collision_group_path_def
      to_string.simps upt_conv_Cons)











text \<open>
  C7. Among the slots the scan reaches (those before the first empty one), a slot index is
  in the result exactly when its cleaned label is \<^verbatim>\<open>"default"\<close>. Cleaning a label that
  starts with a double quote keeps the text between that quote and the last quote of the
  string, dropping both and whatever follows the last one, and lowers the case. The labels
  \<^verbatim>\<open>Default\<close>, \<^verbatim>\<open>DEFAULT\<close> and \<^verbatim>\<open>"default"\<close> followed by a newline all clean to
  \<^verbatim>\<open>"default"\<close>.
\<close>

theorem accepted_iff_cleaned_default:
  assumes "first_empty_slot parser n" "n \<le> 2147483647"
  shows "(\<exists>indices. get_collision_attribute_indices parser = Inr indices \<and>
            (\<forall>i. i \<in> set indices \<longleftrightarrow>
               i < n \<and>
               clean_collision_string (get_value parser (collision_group_path i)) = ''default'')) \<and>
         (\<forall>body tail. CHR 0x22 \<notin> set tail \<longrightarrow>
            clean_collision_string (CHR 0x22 # body @ CHR 0x22 # tail) = map tolower body) \<and>
         clean_collision_string ''Default'' = ''default'' \<and>
         clean_collision_string ''DEFAULT'' = ''default'' \<and>
         clean_collision_string (CHR 0x22 # ''default'' @ [CHR 0x22, CHR 0x0A]) = ''default''"
proof -
  have "get_collision_attribute_indices parser = Inr (filter (accepted_label parser) [0..<n])"
    using collision_attribute_loop_scan [OF assms, of 0 "[]"]
    by (simp add: get_collision_attribute_indices_def)
  then have "\<exists>indices. get_collision_attribute_indices parser = Inr indices \<and>
            (\<forall>i. i \<in> set indices \<longleftrightarrow>
               i < n \<and>
               clean_collision_string (get_value parser (collision_group_path i)) = ''default'')"
    by (auto simp: accepted_label_def)
  then show ?thesis
    using clean_collision_string_quoted clean_Default clean_DEFAULT clean_quoted_default
    by blast
qed

theorem accepted_iff_cleaned_default_witness:
  "first_empty_slot three_slot_store 3 \<and> (3::nat) \<le> 2147483647 \<and>
   (\<exists>indices. get_collision_attribute_indices three_slot_store = Inr indices \<and>
      0 \<in> set indices \<and> 1 \<notin> set indices \<and> 2 \<in> set indices \<and> 3 \<notin> set indices) \<and>
   CHR 0x22 \<notin> set [CHR 0x0A] \<and>
   clean_collision_string (CHR 0x22 # ''DeFault'' @ CHR 0x22 # [CHR 0x0A]) = map tolower ''DeFault''"
proof -
  have labels:
    "get_value three_slot_store (collision_group_path 0) = ''DEFAULT''"
    "get_value three_slot_store (collision_group_path 1) = ''water''"
    "get_value three_slot_store (collision_group_path 2) =
       CHR 0x22 # ''default'' @ [CHR 0x22, CHR 0x0A]"
    by (simp_all add: three_slot_store_def get_value_def collision_group_path_def to_string.simps)
  have q: "CHR 0x22 \<notin> set [CHR 0x0A]" by simp
  note th = accepted_iff_cleaned_default [OF three_slot_store_first_empty]
  have scan: "\<exists>indices. get_collision_attribute_indices three_slot_store = Inr indices \<and>
      (\<forall>i. i \<in> set indices \<longleftrightarrow>
         i < 3 \<and>
         clean_collision_string (get_value three_slot_store (collision_group_path i)) =
           ''default'')"
    using th by simp
  have quoted: "\<forall>body tail. CHR 0x22 \<notin> set tail \<longrightarrow>
      clean_collision_string (CHR 0x22 # body @ CHR 0x22 # tail) = map tolower body"
    using th by simp
  have "clean_collision_string (CHR 0x22 # ''DeFault'' @ CHR 0x22 # [CHR 0x0A]) =
      map tolower ''DeFault''"
    using quoted q by blast
  moreover have "\<exists>indices. get_collision_attribute_indices three_slot_store = Inr indices \<and>
      0 \<in> set indices \<and> 1 \<notin> set indices \<and> 2 \<in> set indices \<and> 3 \<notin> set indices"
    using scan labels clean_quoted_default by (auto simp: clean_DEFAULT clean_water)
  ultimately show ?thesis
    using three_slot_store_first_empty q by simp
qed

section \<open>Properties of the indexed mesh triangulation\<close>

lemma size_t_of_int_eq:
  "size_t_of_int v = (if 0 \<le> sint v then nat (sint v) else nat (2 ^ 64 + sint v))"
proof -
  have b: "- (2 ^ 31) \<le> sint v" "sint v < 2 ^ 31"
    using sint_ge [of v] sint_lt [of v] by simp_all
  have "unat (word_of_int (sint v) :: 64 word) = nat (take_bit 64 (sint v))"
    using unsigned_of_int [of "sint v", where ?'b = 64 and ?'a = nat] by simp
  then have "size_t_of_int v = nat (sint v mod 2 ^ 64)"
    unfolding size_t_of_int_def scast_eq by (simp only: take_bit_eq_mod)
  also have "sint v mod 2 ^ 64 = (if 0 \<le> sint v then sint v else 2 ^ 64 + sint v)"
  proof (cases "0 \<le> sint v")
    case True
    then show ?thesis using b by simp
  next
    case False
    have "(2 ^ 64 + sint v) mod 2 ^ 64 = 2 ^ 64 + sint v"
      using False b by (intro mod_pos_pos_trivial) simp_all
    then show ?thesis using False by simp
  qed
  finally show ?thesis by simp
qed

lemma size_t_of_int_less:
  assumes "n < 2 ^ 63"
  shows "size_t_of_int v < n \<longleftrightarrow> 0 \<le> sint v \<and> nat (sint v) < n"
proof (cases "0 \<le> sint v")
  case True
  then show ?thesis by (simp add: size_t_of_int_eq)
next
  case False
  have "- (2 ^ 31) \<le> sint v" using sint_ge [of v] by simp
  then have "(2::nat) ^ 63 \<le> nat (2 ^ 64 + sint v)" by simp
  then show ?thesis using False assms by (simp add: size_t_of_int_eq)
qed


lemma index_ok_size_t:
  assumes "length vertices < 2 ^ 63"
  shows "size_t_of_int v < length vertices \<longleftrightarrow> index_ok vertices v"
  using size_t_of_int_less [OF assms, of v] by (simp add: index_ok_def)

lemma index_ok_read:
  assumes "index_ok vertices v"
  shows "at vertices (size_t_of_int v) = Inr (vertices ! nat (sint v))"
  using assms by (simp add: index_ok_def size_t_of_int_eq at_def)

lemma push_mesh_triangle_complete:
  assumes "length vertices < 2 ^ 63" "3 * k + 2 < length triangle_processed"
    "length triangle_processed \<le> 2147483647"
  shows "push_mesh_triangle vertices triangle_processed (3 * k) triangles =
           Inr (triangles @ triple_triangles vertices triangle_processed k)"
proof -
  have r: "at triangle_processed (3 * k) = Inr (triangle_processed ! (3 * k))"
    "at triangle_processed (3 * k + 1) = Inr (triangle_processed ! (3 * k + 1))"
    "at triangle_processed (3 * k + 2) = Inr (triangle_processed ! (3 * k + 2))"
    using assms(2) by (simp_all add: at_def)
  have a: "int_add (3 * k) 1 = Inr (3 * k + 1)" "int_add (3 * k) 2 = Inr (3 * k + 2)"
    using assms(2,3) by (simp_all add: int_add_def)
  show ?thesis
    unfolding push_mesh_triangle_def a r bind_Inr index_ok_size_t [OF assms(1)]
    by (simp add: triple_triangles_def index_ok_read bind_Inr)
qed

lemma mesh_loop_complete_triples:
  assumes "length vertices < 2 ^ 63" "k \<le> length triangle_processed div 3"
    "length triangle_processed \<le> 2147483647"
  shows "mesh_loop vertices triangle_processed (3 * k) triangles =
           mesh_loop vertices triangle_processed (3 * (length triangle_processed div 3))
             (triangles @ concat (map (triple_triangles vertices triangle_processed)
                [k..<length triangle_processed div 3]))"
  using assms(2)
proof (induction k arbitrary: triangles rule: inc_induct)
  case base
  show ?case by simp
next
  case (step k)
  have in_range: "3 * k + 2 < length triangle_processed"
    using step.hyps by simp
  then have "3 * k < length triangle_processed" "3 * k + 3 \<le> 2147483647"
    using assms(3) by simp_all
  then have "mesh_loop vertices triangle_processed (3 * k) triangles =
      mesh_loop vertices triangle_processed (3 * k + 3)
        (triangles @ triple_triangles vertices triangle_processed k)"
    using push_mesh_triangle_complete [OF assms(1) in_range assms(3)]
    by (subst mesh_loop.simps) simp
  also have "3 * k + 3 = 3 * Suc k" by simp
  also have "mesh_loop vertices triangle_processed (3 * Suc k)
        (triangles @ triple_triangles vertices triangle_processed k) =
      mesh_loop vertices triangle_processed (3 * (length triangle_processed div 3))
        ((triangles @ triple_triangles vertices triangle_processed k) @
          concat (map (triple_triangles vertices triangle_processed)
            [Suc k..<length triangle_processed div 3]))"
    by (rule step.IH)
  finally show ?case using step.hyps by (simp add: upt_conv_Cons)
qed

lemma mesh_loop_end: "length triangle_processed \<le> i \<Longrightarrow>
    mesh_loop vertices triangle_processed i triangles = Inr triangles"
  by (subst mesh_loop.simps) simp


text \<open>
  C5. For every vertex array (a vector has fewer than \<open>2^63\<close> elements) and every index
  array whose positions the \<^verbatim>\<open>int\<close> loop counter can hold (at most \<open>2147483647\<close>
  elements): the loop takes the complete triples in order and pushes for each of them one
  triangle exactly when its three indices are not negative and below the number of
  vertices, nothing otherwise, and arrives at the first position after them. When the
  length is a multiple of 3 it stops there, and the triangulation returns these triangles.
  With the indices \<open>[0,1,2,5,1,2]\<close> and four vertices that is the one triangle of the first
  triple.
\<close>

theorem triangulate_mesh_triples:
  assumes "length vertices < 2 ^ 63" "length indices \<le> 2147483647"
  shows "mesh_loop vertices indices 0 [] =
           mesh_loop vertices indices (3 * (length indices div 3))
             (concat (map (triple_triangles vertices indices) [0..<length indices div 3])) \<and>
         (length indices mod 3 = 0 \<longrightarrow>
            triangulate_mesh vertices indices =
              Inr (concat (map (triple_triangles vertices indices) [0..<length indices div 3]))) \<and>
         (length vertices = 4 \<longrightarrow>
            triangulate_mesh vertices [0, 1, 2, 5, 1, 2] =
              Inr [\<lparr>p1 = vertices ! 0, p2 = vertices ! 1, p3 = vertices ! 2\<rparr>])"
proof -
  have run: "mesh_loop vertices ixs 0 [] =
           mesh_loop vertices ixs (3 * (length ixs div 3))
             (concat (map (triple_triangles vertices ixs) [0..<length ixs div 3]))"
    if "length ixs \<le> 2147483647" for ixs
    using mesh_loop_complete_triples [OF assms(1) _ that, of 0 "[]"] by simp
  have whole: "triangulate_mesh vertices ixs =
      Inr (concat (map (triple_triangles vertices ixs) [0..<length ixs div 3]))"
    if "length ixs mod 3 = 0" "length ixs \<le> 2147483647" for ixs
  proof -
    have "3 * (length ixs div 3) = length ixs" using that(1) by presburger
    then show ?thesis
      using run [OF that(2)] by (simp add: triangulate_mesh_def mesh_loop_end)
  qed
  have "triangulate_mesh vertices [0, 1, 2, 5, 1, 2] =
      Inr [\<lparr>p1 = vertices ! 0, p2 = vertices ! 1, p3 = vertices ! 2\<rparr>]"
    if "length vertices = 4"
    using whole [of "[0, 1, 2, 5, 1, 2]"] that
    by (simp add: triple_triangles_def index_ok_def upt_conv_Cons)
  then show ?thesis using run [OF assms(2)] whole [OF _ assms(2)] by simp
qed

theorem triangulate_mesh_triples_witness:
  "length square_vertices < 2 ^ 63 \<and> length [0, 1, 2, - 1, 1, 2 :: int32] \<le> 2147483647 \<and>
   length [0, 1, 2, - 1, 1, 2 :: int32] mod 3 = 0 \<and> length square_vertices = 4 \<and>
   triangulate_mesh square_vertices [0, 1, 2, - 1, 1, 2] =
     Inr [\<lparr>p1 = square_vertices ! 0, p2 = square_vertices ! 1, p3 = square_vertices ! 2\<rparr>] \<and>
   triangulate_mesh square_vertices [0, 1, 2, 5, 1, 2] =
     Inr [\<lparr>p1 = square_vertices ! 0, p2 = square_vertices ! 1, p3 = square_vertices ! 2\<rparr>]"
proof -
  have h: "length square_vertices < 2 ^ 63" "length square_vertices = 4"
    by (simp_all add: square_vertices_def)
  have t: "concat (map (triple_triangles square_vertices [0, 1, 2, - 1, 1, 2])
        [0..<length [0, 1, 2, - 1, 1, 2 :: int32] div 3]) =
      [\<lparr>p1 = square_vertices ! 0, p2 = square_vertices ! 1, p3 = square_vertices ! 2\<rparr>]"
    using h(2) by (simp add: triple_triangles_def index_ok_def upt_conv_Cons)
  have b: "length [0, 1, 2, - 1, 1, 2 :: int32] \<le> 2147483647"
    by simp
  show ?thesis
    using triangulate_mesh_triples [OF h(1) b] h t by simp
qed

text \<open>
  C6. One index left over, and it is a valid vertex index: the loop goes on to read
  \<^verbatim>\<open>triangle_processed[1]\<close>, past the end of the array. The same with two indices left
  over after a complete triple, where the read past the end is that of position 5.
\<close>

theorem triangulate_mesh_partial_triple:
  "triangulate_mesh square_vertices [0] = Inl OutOfRange \<and>
   triangulate_mesh square_vertices [0, 1, 2, 3, 1] = Inl OutOfRange"
  by (simp add: triangulate_mesh_def mesh_loop.simps push_mesh_triangle_def at_def bind_def
      int_add_def size_t_of_int_def square_vertices_def)

section \<open>Properties of the output file\<close>

lemma word32_of_bytes_of_float: "word32_of_bytes (bytes_of_float w) = w"
proof (rule bit_word_eqI)
  fix n
  assume "n < LENGTH(32)"
  then consider "n < 8" | "8 \<le> n" "n < 16" | "16 \<le> n" "n < 24" | "24 \<le> n" "n < 32"
    by fastforce
  then show "bit (word32_of_bytes (bytes_of_float w)) n = bit w n"
    unfolding bytes_of_float_def by cases (auto simp: bit_simps)
qed

lemma length_bytes_of_float: "length (bytes_of_float w) = 4"
  by (simp add: bytes_of_float_def)

lemma elements_append:
  assumes "length b = sz" "0 < sz"
  shows "elements sz fb (b @ rest) = fb b # elements sz fb rest"
proof -
  have n: "length (b @ rest) div sz = Suc (length rest div sz)"
    using assms by (simp add: div_add_self1)
  have "[0..<Suc (length rest div sz)] = 0 # map Suc [0..<length rest div sz]"
    by (simp add: upt_conv_Cons map_Suc_upt del: upt_Suc)
  then show ?thesis
    unfolding elements_def n using assms by (simp add: comp_def del: upt_Suc)
qed

lemma elements_floats:
  "elements 4 word32_of_bytes (concat (map bytes_of_float ws)) = ws"
proof (induction ws)
  case Nil
  show ?case by (simp add: elements_def)
next
  case (Cons w ws)
  show ?case
    using elements_append [of "bytes_of_float w" 4 word32_of_bytes "concat (map bytes_of_float ws)"]
    by (simp add: length_bytes_of_float word32_of_bytes_of_float Cons.IH)
qed

lemma bytes_of_Triangle_floats:
  "bytes_of_Triangle t = concat (map bytes_of_float (floats_of_Triangle t))"
  by (simp add: bytes_of_Triangle_def bytes_of_Vector3_def floats_of_Triangle_def)

lemma length_bytes_of_Triangle: "length (bytes_of_Triangle t) = 36"
  by (simp add: bytes_of_Triangle_def bytes_of_Vector3_def length_bytes_of_float)

lemma length_file: "length (concat (map bytes_of_Triangle ts)) = length ts * 36"
  by (induction ts) (simp_all add: length_bytes_of_Triangle)

lemma file_floats:
  "elements 4 word32_of_bytes (concat (map bytes_of_Triangle ts)) =
     concat (map floats_of_Triangle ts)"
proof -
  have "concat (map bytes_of_Triangle ts) =
      concat (map bytes_of_float (concat (map floats_of_Triangle ts)))"
    by (induction ts) (simp_all add: bytes_of_Triangle_floats)
  then show ?thesis by (simp add: elements_floats)
qed


text \<open>
  C8, as the code has it. A file is written exactly when the triangle list is not empty
  and the output stream could be opened. The file then holds \<open>36\<close> bytes for every triangle
  and nothing else: the triangles in the order of the list, and read back as 32-bit
  little-endian words the file is the sequence of their floats,
  \<open>p1.x, p1.y, p1.z, p2.x, \<dots>, p3.z\<close> for each.
\<close>

theorem write_output_file:
  "(write_output is_open triangles \<noteq> None \<longleftrightarrow> triangles \<noteq> [] \<and> is_open) \<and>
   (\<forall>bytes. write_output is_open triangles = Some bytes \<longrightarrow>
      length bytes = length triangles * 36 \<and>
      bytes = concat (map bytes_of_Triangle triangles) \<and>
      elements 4 word32_of_bytes bytes = concat (map floats_of_Triangle triangles))"
  by (auto simp: write_output_def length_file file_floats)

theorem write_output_file_witness:
  "write_output True [\<lparr>p1 = square_vertices ! 0, p2 = square_vertices ! 1,
       p3 = square_vertices ! 2\<rparr>] =
     Some [0, 0, 0, 0,  0, 0, 0, 0,  0, 0, 0, 0,
           0, 0, 0x80, 0x3F,  0, 0, 0, 0,  0, 0, 0, 0,
           0, 0, 0x80, 0x3F,  0, 0, 0x80, 0x3F,  0, 0, 0, 0] \<and>
   length (concat (map bytes_of_Triangle [\<lparr>p1 = square_vertices ! 0, p2 = square_vertices ! 1,
       p3 = square_vertices ! 2\<rparr>])) = length [\<lparr>p1 = square_vertices ! 0,
       p2 = square_vertices ! 1, p3 = square_vertices ! 2\<rparr>] * 36"
proof -
  let ?t = "\<lparr>p1 = square_vertices ! 0, p2 = square_vertices ! 1, p3 = square_vertices ! 2\<rparr>"
  have h: "write_output True [?t] =
     Some [0, 0, 0, 0,  0, 0, 0, 0,  0, 0, 0, 0,
           0, 0, 0x80, 0x3F,  0, 0, 0, 0,  0, 0, 0, 0,
           0, 0, 0x80, 0x3F,  0, 0, 0x80, 0x3F,  0, 0, 0, 0]"
    by (simp add: write_output_def bytes_of_Triangle_def bytes_of_Vector3_def bytes_of_float_def
        square_vertices_def drop_bit_eq_div)
  have "write_output True [?t] = Some (concat (map bytes_of_Triangle [?t]))"
    by (simp add: write_output_def)
  then have "length (concat (map bytes_of_Triangle [?t])) = length [?t] * 36"
    using write_output_file [of True "[?t]"] by blast
  with h show ?thesis by simp
qed

text \<open>
  One triangle and an output stream that could not be opened: the list is not empty, and
  no file is written.
\<close>

theorem write_output_closed_counterexample:
  "[\<lparr>p1 = square_vertices ! 0, p2 = square_vertices ! 1, p3 = square_vertices ! 2\<rparr>] \<noteq> [] \<and>
   write_output False
     [\<lparr>p1 = square_vertices ! 0, p2 = square_vertices ! 1, p3 = square_vertices ! 2\<rparr>] = None"
  by (simp add: write_output_def)

end
